theory Spec2Isabelle
  imports Main
begin

section \<open>Python string primitives used by the game\<close>

text \<open>
  A Python \<open>str\<close> is modelled as a HOL \<open>string\<close>, each \<open>char\<close> standing for one
  code point below 256. \<open>py_isspace\<close> is \<open>str.isspace\<close> on that range: the characters
  that \<open>str.strip()\<close> removes when it is called without an argument.
\<close>

definition py_isspace :: "char \<Rightarrow> bool" where
  "py_isspace c =
     (let n = (of_char c :: nat)
      in (9 \<le> n \<and> n \<le> 13) \<or> (28 \<le> n \<and> n \<le> 32) \<or> n = 133 \<or> n = 160)"

definition py_strip :: "string \<Rightarrow> string" where
  "py_strip s = rev (dropWhile py_isspace (rev (dropWhile py_isspace s)))"

text \<open>\<open>s.split(sep)\<close> for a one-character separator: always at least one piece.\<close>

fun py_split :: "char \<Rightarrow> string \<Rightarrow> string list" where
  "py_split sep [] = [[]]"
| "py_split sep (c # cs) =
     (if c = sep then [] # py_split sep cs
      else (case py_split sep cs of
              [] \<Rightarrow> [[c]]
            | w # ws \<Rightarrow> (c # w) # ws))"

text \<open>\<open>s[:k]\<close>: a negative \<open>k\<close> counts from the end.\<close>

definition py_slice_to :: "string \<Rightarrow> int \<Rightarrow> string" where
  "py_slice_to s k =
     (if 0 \<le> k then take (nat k) s else take (nat (int (length s) + k)) s)"

text \<open>\<open>str(i)\<close> on an integer: decimal digits, with a sign when negative.\<close>

fun str_nat :: "nat \<Rightarrow> string" where
  "str_nat n =
     (if n < 10 then [''0123456789'' ! n]
      else str_nat (n div 10) @ [''0123456789'' ! (n mod 10)])"

declare str_nat.simps [simp del]

definition py_str :: "int \<Rightarrow> string" where
  "py_str i = (if i < 0 then CHR ''-'' # str_nat (nat (- i)) else str_nat (nat i))"

section \<open>TypewriterText\<close>

text \<open>
  The fields of the class that the animation and the wrapping read. \<open>font\<close> stands for
  \<open>self.font.size(s)[0]\<close>, the rendered pixel width of a string. The clock
  \<open>pygame.time.get_ticks()\<close> is an input of \<open>set_text\<close> and \<open>update\<close>. The mixer
  channel, the colour and the position only feed the sound and the drawing.
\<close>

record typewriter =
  font :: "string \<Rightarrow> int"
  max_width :: int
  max_height :: int
  delay :: int
  full_text :: string
  current_index :: int
  last_update :: int

definition set_text :: "string \<Rightarrow> int \<Rightarrow> typewriter \<Rightarrow> typewriter" where
  "set_text txt now tw = tw\<lparr>full_text := txt, current_index := 0, last_update := now\<rparr>"

definition TypewriterText ::
  "string \<Rightarrow> (string \<Rightarrow> int) \<Rightarrow> int \<Rightarrow> int \<Rightarrow> int \<Rightarrow> int \<Rightarrow> typewriter" where
  "TypewriterText txt fnt mw mh dly now =
     set_text txt now
       \<lparr>font = fnt, max_width = mw, max_height = mh, delay = dly,
        full_text = [], current_index = 0, last_update = 0\<rparr>"

definition is_finished :: "typewriter \<Rightarrow> bool" where
  "is_finished tw = (int (length (full_text tw)) \<le> current_index tw)"

definition update :: "int \<Rightarrow> typewriter \<Rightarrow> typewriter" where
  "update now tw =
     (if \<not> is_finished tw \<and> delay tw < now - last_update tw
      then tw\<lparr>last_update := now, current_index := current_index tw + 1\<rparr>
      else tw)"

definition complete :: "typewriter \<Rightarrow> typewriter" where
  "complete tw = tw\<lparr>current_index := int (length (full_text tw))\<rparr>"

subsection \<open>wrap_text\<close>

text \<open>The inner loop over the words of one paragraph: the pair of \<open>wrapped_lines\<close> and
  \<open>current_line\<close> after the loop.\<close>

fun wrap_words ::
  "typewriter \<Rightarrow> string list \<Rightarrow> string \<Rightarrow> string list \<Rightarrow> string list \<times> string" where
  "wrap_words tw wrapped_lines current_line [] = (wrapped_lines, current_line)"
| "wrap_words tw wrapped_lines current_line (word # words) =
     (let test_line = py_strip (current_line @ '' '' @ word)
      in if font tw test_line \<le> max_width tw
         then wrap_words tw wrapped_lines test_line words
         else wrap_words tw (wrapped_lines @ [current_line]) word words)"

text \<open>The body of the outer loop: what one paragraph appends to \<open>wrapped_lines\<close>.\<close>

definition wrap_paragraph :: "typewriter \<Rightarrow> string list \<Rightarrow> string \<Rightarrow> string list" where
  "wrap_paragraph tw wrapped_lines paragraph =
     (if py_strip paragraph = [] then wrapped_lines @ [[]]
      else (case wrap_words tw wrapped_lines [] (py_split CHR '' '' paragraph) of
              (wl, current_line) \<Rightarrow> wl @ [current_line]))"

fun wrap_paragraphs :: "typewriter \<Rightarrow> string list \<Rightarrow> string list \<Rightarrow> string list" where
  "wrap_paragraphs tw wrapped_lines [] = wrapped_lines"
| "wrap_paragraphs tw wrapped_lines (paragraph # ps) =
     wrap_paragraphs tw (wrap_paragraph tw wrapped_lines paragraph) ps"

definition wrap_text :: "typewriter \<Rightarrow> string \<Rightarrow> string list" where
  "wrap_text tw txt = wrap_paragraphs tw [] (py_split CHR 0x0A txt)"

text \<open>The first two statements of \<open>draw\<close>: the lines to be drawn are the wrapped revealed
  prefix.\<close>

definition draw_lines :: "typewriter \<Rightarrow> string list" where
  "draw_lines tw = wrap_text tw (py_slice_to (full_text tw) (current_index tw))"

text \<open>A monospaced font (the game asks for Courier New): every character is \<open>w\<close> pixels
  wide.\<close>

definition mono_font :: "int \<Rightarrow> string \<Rightarrow> int" where
  "mono_font w s = w * int (length s)"

subsection \<open>Sequences of typewriter operations\<close>

datatype tw_op = SetText string int | Update int | Complete

fun apply_op :: "tw_op \<Rightarrow> typewriter \<Rightarrow> typewriter" where
  "apply_op (SetText txt now) tw = set_text txt now tw"
| "apply_op (Update now) tw = update now tw"
| "apply_op Complete tw = complete tw"

fun run :: "typewriter \<Rightarrow> tw_op list \<Rightarrow> typewriter" where
  "run tw [] = tw"
| "run tw (opr # ops) = run (apply_op opr tw) ops"

section \<open>The story graph\<close>

text \<open>
  A node of \<open>choices_tree\<close> is a dictionary with the optional keys \<open>"text"\<close>,
  \<open>"choices"\<close> and \<open>"redirect"\<close>; \<open>None\<close> stands for an absent key.
\<close>

record node =
  node_text :: "string option"
  node_choices :: "string list option"
  node_redirect :: "string option"

definition content_node :: "string \<Rightarrow> string list \<Rightarrow> node" where
  "content_node t cs = \<lparr>node_text = Some t, node_choices = Some cs, node_redirect = None\<rparr>"

definition redirect_node :: "string \<Rightarrow> node" where
  "redirect_node r = \<lparr>node_text = None, node_choices = None, node_redirect = Some r\<rparr>"

text \<open>
  The story data of \<open>main\<close>. Node \<open>1_2\<close> holds three characters outside ASCII, the code
  points U+00E2, U+20AC and U+201D; the last two are above 255 and are written as their
  Windows-1252 bytes 0x80 and 0x94. None of the three is a whitespace character.
\<close>

definition initial_story :: string where
  "initial_story =
     ''Chapter 1: The Awakening\<newline>\<newline>You are playing a newly released game in a dark, silent room. It's your deserved reward after all.\<newline>You waited 14 years for it. Now it is finally available in your hand. Enjoying it is your virtue.\<newline>But some noise starts coming apart, disturbing your joy in the process.''"

definition choices_tree :: "string \<rightharpoonup> node" where
  "choices_tree = map_of
    [(''start'', content_node
        initial_story
         [''Investigate the noise'',
          ''Ignore it'']),
     (''1'', content_node
        (''You chose to investigate the noise. It becomes more static, giving eerie vibes and it grows louder.\<newline>Do you really want to investigate the sound or call someone?'')
         [''Yes, these things don't scare me anymore.'',
          ''Call someone for help'']),
     (''2'', content_node
        (''You chose to ignore the noise. You enjoy the loading screen and one specific picture.\<newline>Noise from outside starts growing?\<newline>Do you want to investigate the sound or keep playing anyway?'')
         [''Ahh! So irritating'',
          ''Keep playing anyway'']),
     (''1_1'', content_node
        (''You move forward, braver now. After all, it's your home. If you don't protect it, who will? Bracing yourself, you cross the hallway to the door. There you see your coat hanging on a metal hanger.'')
         [''Wear coat'',
          ''Wear coat and take metal hanger as weapon'',
          ''Just enter'']),
     (''1_2'', content_node
        (''You try to call someone, but there's no signal. You're confused'' @ [CHR 0xE2] @ [CHR 0x80] @ [CHR 0x94] @ ''the signal is always strong in this room.'')
         [''Investigate the sound by yourself'',
          ''Go back and try again with your PC'']),
     (''2_1'', content_node
        (''You stand up angrily. Irritated by the noise, you grab a nearby flashlight and the beer bottle you were about to enjoy with your game.'')
         [''Rush the hallway'',
          ''Walk the hallway in a normal pace'']),
     (''2_2'', content_node
        (''You keep playing. Now you control the playable character.'')
         [''Punch an NPC'',
          ''Do a mission in the game'']),
     (''1_1_1'', content_node
        (''You wear the coat. It feels heavier than usual, but provides a small sense of security. You grip the doorknob. It's strangely cold, almost unnaturally so as you slowly turn it. The noise on the other side stops abruptly. The silence is now even more terrifying than the noise was.'')
         [''fling the door open.'',
          ''Open the door slowly and peek.'',
          ''Call out,'Who's there?'']),
     (''1_1_2'', content_node
        (''You wear the coat and rip the metal hanger off the hook. You bend it into a crude, sharp point. It feels better than nothing. You grip the doorknob. It's strangely cold, almost unnaturally so as you slowly turn it. The noise on the other side stops abruptly.'')
         [''fling the door open.'',
          ''Open the door slowly and peek.'',
          ''Call out, 'Who's there?'' @ [CHR 0x27]]),
     (''1_1_3'', content_node
        (''You decide to face whatever is there with your undies that you were wearing. You slowly, silently, turn the knob slowly which felt strangely cold and the noise beyond the door stop suddenly.'')
         [''Push the door fully open.'',
          ''Close the door and reconsider.'']),
     (''1_2_1'', redirect_node ''1_1''),
     (''1_2_2'', content_node
        (''You decide this is too strange. You go back to your PC, You cancel the game that you were so desperate to play but you didn't download from offical website so you were redirected to a porn site.'')
         [''Try to close the porn site.'',
          ''Enjoy it afterall who is looking?'',
          ''Force shutdown the pc'']),
     (''2_1_1'', content_node
        (''Fueled by annoyance, you rush down the hallway, flashlight beam bouncing wildly. You round the corner to the hallway and kicks open the door and the light falls on a oddly figure. It's tall, unnaturally thin, and turns its head towards you with an audible crack of neck.'')
         [''Throw the beer bottle at it.'',
          ''Freeze and stare in it eyes.'']),
     (''2_1_2'', content_node
        (''You walk calmly, flashlight off, using the dim moonlight to see. The noise is a rhythmic scraping coming from the outside of hallway room. You open the door and light falls on a oddly figure. It's tall, unnaturally thin, and turns its head towards you with an audible crack of neck.'')
         [''Flick on the flashlight to startle it.'',
          ''Quietly back away.'']),
     (''2_2_1'', content_node
        (''Every start of a game of Gta,we always punch a npc to celebrate the download of the game and so you did it. Keeping the tradition alive.'')
         [''Punch even more npc?'',
          ''Investigate the sound that irritating you?'']),
     (''2_2_2'', content_node
        (''You ignore the real-world noise and focus on the game. The quest-giver, a mafia, looks at you, but his dialogue box says, 'Gang B is has stolen ours supplies recover it or you dead' The text is bright red'')
         [''Kill the Npc.'',
          ''Ask the NPC a question in-game.'',
          ''Investigate the sound that irritating you?'']),
     (''1_1_1_1'', content_node
        (''You throw the door open to an empty living room. You hear rough breathing sound towards a certain direction.'')
         [''Flash your flashlight towards it.'',
          ''throw the flashlight at it.'',
          ''Scream at it.'']),
     (''1_1_1_2'', content_node
        (''You peek out. Closing your flashlight so you can be like an assassin. You open the door slowly.'')
         [''Crawl on the surface.'',
          ''Crouch on the surface and walk'',
          ''Walk in this situation.'']),
     (''1_1_1_3'', content_node
        (''Your voice echoes in the silent house. There is no reply.'')
         [''Flash your flashlight at random direction'',
          ''Shout once again'',
          ''Go back inside'']),
     (''1_1_2_1'', content_node
        (''You burst through the door with a war cry and enters the living room while flashing the light falls on an oddly figure. It's tall, unnaturally thin, and turns its head towards you with an audible crack of neck.'')
         [''Flash your flashlight on it.'',
          ''Throw the nearby chair at it'',
          ''Try to talk with it'']),
     (''1_1_2_2'', content_node
        (''Holding your makeshift weapon in your hand you cautiously turn the doorknob, peeking through the door as cautiously as possible.\<newline>\<newline>What would you do next?'')
         [''Crawl on the surface.'',
          ''Crouch on the surface and walk'',
          ''Walk in this situation.'']),
     (''1_1_2_3'', content_node
        (''After opening the door. You call out by saying, 'Who's there? If you are a thief, you picked the wrong house, mate. I will call the police in a few seconds. You hear me, mate?'' @ [CHR 0x27])
         [''Wait for the response'',
          ''Start calling the police'',
          ''Step more forward with your flashlight.'']),
     (''1_1_3_1'', content_node
        (''You push the door open proudly. You don't need a weapon to respond to such danger or anything. Flashing your light, you see an oddly figure. It's tall and unnaturally thin. Turning its head slowly towards the direction of the light.'')
         [[CHR 0x27] @ ''Who are you?' or 'What are you?'' @ [CHR 0x27],
          ''Give a 'War cry'' @ [CHR 0x27],
          ''Just go back inside'']),
     (''1_1_3_2'', content_node
        (''You got an awakening and finally your one brain cell thought: 'Is it really okay to fight in my undies?'' @ [CHR 0x27])
         [''Wear the coat'',
          ''Wear coat and take metal hanger as weapon'',
          ''Just enter (again)''])]"

section \<open>The event handler of the main loop\<close>

datatype game_state = Narrative | Choice | Ending

datatype error = KeyError string

record game =
  running :: bool
  game_state :: game_state
  current_node_key :: string
  typewriter :: typewriter

text \<open>\<open>choices_tree.get(current_node_key, {}).get("choices", [])\<close>\<close>

definition current_choices :: "(string \<rightharpoonup> node) \<Rightarrow> string \<Rightarrow> string list" where
  "current_choices tree key =
     (case tree key of
        None \<Rightarrow> []
      | Some nd \<Rightarrow> (case node_choices nd of None \<Rightarrow> [] | Some cs \<Rightarrow> cs))"

text \<open>The key of the next node, from the current key and the 0-based choice index.\<close>

definition next_key :: "string \<Rightarrow> int \<Rightarrow> string" where
  "next_key key choice_index =
     (if key = ''start'' then py_str (choice_index + 1)
      else key @ ''_'' @ py_str (choice_index + 1))"

text \<open>
  The body of \<open>if game_state == "choice"\<close> once \<open>choice_index\<close> is known. A redirect
  whose target is not a key of the tree makes \<open>choices_tree[current_node_key]\<close> raise.
\<close>

definition handle_choice :: "(string \<rightharpoonup> node) \<Rightarrow> int \<Rightarrow> int \<Rightarrow> game \<Rightarrow> error + game" where
  "handle_choice tree now choice_index g =
     (if 0 \<le> choice_index
         \<and> choice_index < int (length (current_choices tree (current_node_key g)))
      then
        (let nk = next_key (current_node_key g) choice_index
         in case tree nk of
              Some target_node \<Rightarrow>
                (let key' = (case node_redirect target_node of Some r \<Rightarrow> r | None \<Rightarrow> nk)
                 in case tree key' of
                      None \<Rightarrow> Inl (KeyError key')
                    | Some nd \<Rightarrow>
                        Inr (g\<lparr>current_node_key := key',
                               typewriter :=
                                 set_text
                                   (case node_text nd of
                                      Some t \<Rightarrow> t
                                    | None \<Rightarrow> ''The story ends here.'')
                                   now (typewriter g),
                               game_state :=
                                 (case node_choices nd of
                                    Some (c # cs) \<Rightarrow> Narrative
                                  | _ \<Rightarrow> Ending)\<rparr>))
            | None \<Rightarrow>
                Inr (g\<lparr>typewriter :=
                          set_text
                            ''This path has not been written yet. The story ends here.''
                            now (typewriter g),
                        game_state := Ending\<rparr>))
      else Inr g)"

text \<open>pygame's key codes.\<close>

definition K_ESCAPE :: int where "K_ESCAPE = 27"
definition K_SPACE :: int where "K_SPACE = 32"
definition K_1 :: int where "K_1 = 49"
definition K_9 :: int where "K_9 = 57"
definition K_F1 :: int where "K_F1 = 1073741882"
definition K_F4 :: int where "K_F4 = 1073741885"

text \<open>One \<open>KEYDOWN\<close> event. Toggling fullscreen changes the display only.\<close>

definition keydown :: "(string \<rightharpoonup> node) \<Rightarrow> int \<Rightarrow> int \<Rightarrow> game \<Rightarrow> error + game" where
  "keydown tree now key g =
     (let g1 = (if key = K_ESCAPE \<or> key = K_F1 then g\<lparr>running := False\<rparr>
                else if key = K_F4 then g
                else if key = K_SPACE \<and> game_state g = Narrative
                then g\<lparr>typewriter := complete (typewriter g)\<rparr>
                else g)
      in if game_state g1 = Choice
         then handle_choice tree now (if K_1 \<le> key \<and> key \<le> K_9 then key - K_1 else - 1) g1
         else Inr g1)"

text \<open>The state \<open>main\<close> starts its loop in.\<close>

definition initial_game :: "(string \<Rightarrow> int) \<Rightarrow> int \<Rightarrow> game" where
  "initial_game fnt now =
     \<lparr>running = True, game_state = Narrative, current_node_key = ''start'',
      typewriter = TypewriterText initial_story fnt 760 280 30 now\<rparr>"

text \<open>The rest of one frame after the events: the typewriter's tick, and the step from
  narrative to choice once the text is out.\<close>

definition frame_logic :: "int \<Rightarrow> game \<Rightarrow> game" where
  "frame_logic now g =
     (let g1 = g\<lparr>typewriter := update now (typewriter g)\<rparr>
      in if game_state g1 = Narrative \<and> is_finished (typewriter g1)
         then g1\<lparr>game_state := Choice\<rparr> else g1)"

section \<open>Auxiliary predicates and test data\<close>

text \<open>
  The resolution of redirects as the specification words it, for comparison with the
  event handler: follow redirects until a node that is not one, the chain bounded by a
  number of steps; \<open>None\<close> when the bound is reached or a key is missing.
\<close>

fun spec_resolve :: "(string \<rightharpoonup> node) \<Rightarrow> nat \<Rightarrow> string \<Rightarrow> node option" where
  "spec_resolve tree 0 key = None"
| "spec_resolve tree (Suc n) key =
     (case tree key of
        None \<Rightarrow> None
      | Some nd \<Rightarrow> (case node_redirect nd of None \<Rightarrow> Some nd | Some r \<Rightarrow> spec_resolve tree n r))"

text \<open>A small story with a chain of two redirects under the first choice and a redirect
  to itself under the second.\<close>

definition redirect_chains :: "string \<rightharpoonup> node" where
  "redirect_chains = map_of
     [(''start'', content_node ''S'' [''chain'', ''cycle'']),
      (''1'', redirect_node ''a''),
      (''a'', redirect_node ''b''),
      (''b'', content_node ''B'' [''x'']),
      (''2'', redirect_node ''2'')]"

text \<open>The non-empty words of a string, separated by spaces.\<close>

definition words_of :: "string \<Rightarrow> string list" where
  "words_of s = filter (\<lambda>w. w \<noteq> []) (py_split CHR '' '' s)"

text \<open>A typewriter whose lines hold five characters of ten pixels each.\<close>

definition narrow50 :: typewriter where
  "narrow50 = TypewriterText [] (mono_font 10) 50 280 30 0"

text \<open>Two letters with a tab between them, each set off by a space.\<close>

definition tabbed :: string where
  "tabbed = ''a '' @ [CHR 0x09] @ '' b''"

text \<open>The range the reveal count is meant to stay in.\<close>

definition index_ok :: "typewriter \<Rightarrow> bool" where
  "index_ok tw = (0 \<le> current_index tw \<and> current_index tw \<le> int (length (full_text tw)))"

text \<open>A typewriter holding ten letters, with the game's delay of 30, built at time 0.\<close>

definition ten_letters :: typewriter where
  "ten_letters = TypewriterText ''abcdefghij'' (mono_font 10) 760 280 30 0"

text \<open>The game waiting for a choice at a node.\<close>

definition at_node :: "string \<Rightarrow> game" where
  "at_node key =
     \<lparr>running = True, game_state = Choice, current_node_key = key, typewriter = ten_letters\<rparr>"

section \<open>The reveal count\<close>

lemma index_ok_set_text: "index_ok (set_text txt now tw)"
  by (simp add: index_ok_def set_text_def)

lemma index_ok_init: "index_ok (TypewriterText txt fnt mw mh dly now)"
  by (simp add: TypewriterText_def index_ok_set_text)

lemma index_ok_update: "index_ok tw \<Longrightarrow> index_ok (update now tw)"
  by (auto simp: index_ok_def update_def is_finished_def)

lemma index_ok_complete: "index_ok (complete tw)"
  by (simp add: index_ok_def complete_def)

lemma index_ok_apply_op: "index_ok tw \<Longrightarrow> index_ok (apply_op opr tw)"
  by (cases opr) (simp_all add: index_ok_set_text index_ok_update index_ok_complete)

lemma index_ok_run: "index_ok tw \<Longrightarrow> index_ok (run tw ops)"
  by (induction ops arbitrary: tw) (simp_all add: index_ok_apply_op)

lemma index_ok_reachable: "index_ok (run (TypewriterText txt fnt mw mh dly now) ops)"
  by (rule index_ok_run) (rule index_ok_init)

text \<open>
  C7. After construction and any sequence of \<open>set_text\<close>, \<open>update\<close> and \<open>complete\<close>
  calls, \<open>is_finished\<close> holds exactly when the reveal count equals the length of the full
  text; and \<open>is_finished\<close> holds right after \<open>complete\<close>, whatever the state before.
\<close>

theorem finished_contract:
  "is_finished (run (TypewriterText txt fnt mw mh dly now) ops) =
     (current_index (run (TypewriterText txt fnt mw mh dly now) ops) =
      int (length (full_text (run (TypewriterText txt fnt mw mh dly now) ops))))
   \<and> is_finished (complete tw)"
proof -
  have "index_ok (run (TypewriterText txt fnt mw mh dly now) ops)"
    by (rule index_ok_reachable)
  then show ?thesis
    by (auto simp: index_ok_def is_finished_def complete_def)
qed

lemma update_index:
  "current_index (update now tw) =
     (if \<not> is_finished tw \<and> delay tw < now - last_update tw
      then current_index tw + 1 else current_index tw)"
  by (simp add: update_def)

lemma update_last_update:
  "last_update (update now tw) =
     (if \<not> is_finished tw \<and> delay tw < now - last_update tw
      then now else last_update tw)"
  by (simp add: update_def)

lemma update_delay: "delay (update now tw) = delay tw"
  by (simp add: update_def)

text \<open>
  C5. From construction on, through any sequence of \<open>set_text\<close>, \<open>update\<close> and
  \<open>complete\<close> calls, the reveal count stays between 0 and the length of the full text;
  \<open>update\<close> and \<open>complete\<close> never decrease it; \<open>set_text\<close> and the constructor put
  it at 0.
\<close>

theorem reveal_count_invariant:
  "0 \<le> current_index (run (TypewriterText txt fnt mw mh dly now) ops)
   \<and> current_index (run (TypewriterText txt fnt mw mh dly now) ops)
       \<le> int (length (full_text (run (TypewriterText txt fnt mw mh dly now) ops)))
   \<and> current_index (run (TypewriterText txt fnt mw mh dly now) ops)
       \<le> current_index (update t (run (TypewriterText txt fnt mw mh dly now) ops))
   \<and> current_index (run (TypewriterText txt fnt mw mh dly now) ops)
       \<le> current_index (complete (run (TypewriterText txt fnt mw mh dly now) ops))
   \<and> current_index (set_text txt' t' tw) = 0
   \<and> current_index (TypewriterText txt fnt mw mh dly now) = 0"
proof -
  let ?s = "run (TypewriterText txt fnt mw mh dly now) ops"
  have ok: "index_ok ?s"
    by (rule index_ok_reachable)
  have bounds: "0 \<le> current_index ?s \<and> current_index ?s \<le> int (length (full_text ?s))"
    using ok by (simp add: index_ok_def)
  have upd: "current_index ?s \<le> current_index (update t ?s)"
    by (simp add: update_index)
  have cmp: "current_index ?s \<le> current_index (complete ?s)"
    using bounds by (simp add: complete_def)
  have rst: "current_index (set_text txt' t' tw) = 0"
    by (simp add: set_text_def)
  have ini: "current_index (TypewriterText txt fnt mw mh dly now) = 0"
    by (simp add: TypewriterText_def set_text_def)
  from bounds upd cmp rst ini show ?thesis
    by blast
qed

section \<open>The reveal rate\<close>

lemma fold_update_delay: "delay (fold update ts tw) = delay tw"
  by (induction ts arbitrary: tw) (simp_all add: update_delay)

lemma fold_update_mono: "current_index tw \<le> current_index (fold update ts tw)"
proof (induction ts arbitrary: tw)
  case Nil
  show ?case by simp
next
  case (Cons t ts)
  have "current_index tw \<le> current_index (update t tw)"
    by (simp add: update_index)
  also have "\<dots> \<le> current_index (fold update ts (update t tw))"
    by (rule Cons.IH)
  finally show ?case by simp
qed

lemma fold_update_count:
  "current_index (fold update ts tw) - current_index tw \<le> int (length ts)"
proof (induction ts arbitrary: tw)
  case Nil
  show ?case by simp
next
  case (Cons t ts)
  have step: "current_index (update t tw) \<le> current_index tw + 1"
    by (simp add: update_index)
  have "current_index (fold update ts (update t tw)) - current_index (update t tw)
          \<le> int (length ts)"
    by (rule Cons.IH)
  with step show ?case by simp
qed

lemma fold_update_spacing:
  "(current_index (fold update ts tw) - current_index tw) * (delay tw + 1)
     \<le> last_update (fold update ts tw) - last_update tw"
proof (induction ts arbitrary: tw)
  case Nil
  show ?case by simp
next
  case (Cons t ts)
  let ?u = "update t tw"
  let ?f = "fold update ts ?u"
  have ih: "(current_index ?f - current_index ?u) * (delay tw + 1)
              \<le> last_update ?f - last_update ?u"
    using Cons.IH [of ?u] by (simp add: update_delay)
  show ?case
  proof (cases "\<not> is_finished tw \<and> delay tw < t - last_update tw")
    case True
    then have ci: "current_index ?u = current_index tw + 1"
      and lu: "last_update ?u = t"
      by (simp_all add: update_def)
    from True have gap: "delay tw + 1 \<le> t - last_update tw"
      by simp
    have "(current_index ?f - current_index tw) * (delay tw + 1)
            = (current_index ?f - current_index ?u) * (delay tw + 1) + (delay tw + 1)"
      by (simp add: ci algebra_simps)
    also have "\<dots> \<le> (last_update ?f - last_update ?u) + (t - last_update tw)"
      using ih gap by linarith
    finally show ?thesis
      by (simp add: lu)
  next
    case False
    then have "?u = tw"
      by (auto simp: update_def)
    with ih show ?thesis by simp
  qed
qed

lemma fold_update_last:
  "(\<forall>t\<in>set ts. t \<le> T) \<Longrightarrow> last_update tw \<le> T \<Longrightarrow> last_update (fold update ts tw) \<le> T"
  by (induction ts arbitrary: tw) (simp_all add: update_last_update)

text \<open>
  C6, as the claim states it, fails: from the same state (ten characters, delay 30, last
  tick at 0) the count at time 93 is 3 when \<open>update\<close> was called at 31, 62 and 93, and 1
  when it was called at 93 only.
\<close>

theorem reveal_rate_counterexample:
  "current_index (fold update [31, 62, 93] ten_letters) = 3
   \<and> current_index (fold update [93] ten_letters) = 1
   \<and> current_index (fold update [20, 40, 60, 80, 93] ten_letters) = 2"
  by (simp add: ten_letters_def TypewriterText_def set_text_def update_def is_finished_def)

text \<open>
  C6, amended. \<open>update\<close> advances the reveal count by exactly one, and moves the last
  tick to the current time, precisely when the text is not finished and the time since
  the last tick exceeds the delay; otherwise it changes neither. So a schedule of
  \<open>update\<close> calls reveals at most one character per call, and in a window that ends at
  \<open>T\<close> the number of revealed characters times \<open>delay + 1\<close> is at most the length of
  the window: the delay bounds the rate from above, and the rate reached depends on when
  \<open>update\<close> is called.
\<close>

theorem update_reveal_rate:
  "current_index (update now tw) =
     (if \<not> is_finished tw \<and> delay tw < now - last_update tw
      then current_index tw + 1 else current_index tw)
   \<and> last_update (update now tw) =
     (if \<not> is_finished tw \<and> delay tw < now - last_update tw
      then now else last_update tw)
   \<and> current_index tw \<le> current_index (fold update ts tw)
   \<and> current_index (fold update ts tw) - current_index tw \<le> int (length ts)
   \<and> ((\<forall>t\<in>set ts. t \<le> T) \<and> last_update tw \<le> T \<longrightarrow>
        (current_index (fold update ts tw) - current_index tw) * (delay tw + 1)
          \<le> T - last_update tw)"
proof -
  have rate: "(current_index (fold update ts tw) - current_index tw) * (delay tw + 1)
                \<le> T - last_update tw"
    if "\<forall>t\<in>set ts. t \<le> T" and "last_update tw \<le> T"
  proof -
    have "last_update (fold update ts tw) \<le> T"
      using that by (rule fold_update_last)
    with fold_update_spacing [of ts tw] show ?thesis
      by linarith
  qed
  show ?thesis
    using rate
    by (simp add: update_index update_last_update fold_update_mono fold_update_count)
qed

theorem update_reveal_rate_witness:
  "current_index (update 31 ten_letters) = 1
   \<and> current_index (update 30 ten_letters) = 0
   \<and> (current_index (fold update [31, 62, 93] ten_letters) - current_index ten_letters)
        * (delay ten_letters + 1) \<le> 93 - last_update ten_letters"
  using update_reveal_rate [of 31 ten_letters "[31, 62, 93]" 93]
    update_reveal_rate [of 30 ten_letters "[]" 0]
  by (simp add: ten_letters_def TypewriterText_def set_text_def is_finished_def)

section \<open>Choices and transitions\<close>

lemma py_str_digit:
  assumes "0 \<le> i" and "i < 10"
  shows "py_str i = [''0123456789'' ! nat i]"
proof -
  have "nat i < 10"
    using assms by simp
  then have "str_nat (nat i) = [''0123456789'' ! nat i]"
    by (subst str_nat.simps) simp
  with assms show ?thesis
    by (simp add: py_str_def)
qed

lemma py_str_1: "py_str 1 = ''1''"
  by (simp add: py_str_digit)

lemma py_str_2: "py_str 2 = ''2''"
  by (simp add: py_str_digit)

lemma py_str_3: "py_str 3 = ''3''"
  by (simp add: py_str_digit)

lemma choices_at_start:
  "current_choices choices_tree ''start'' = [''Investigate the noise'', ''Ignore it'']"
  by (simp add: current_choices_def choices_tree_def content_node_def)

lemma choices_at_1_1:
  "current_choices choices_tree ''1_1'' =
     [''Wear coat'', ''Wear coat and take metal hanger as weapon'', ''Just enter'']"
  by (simp add: current_choices_def choices_tree_def content_node_def)

lemma choices_at_1_2:
  "current_choices choices_tree ''1_2'' =
     [''Investigate the sound by yourself'', ''Go back and try again with your PC'']"
  by (simp add: current_choices_def choices_tree_def content_node_def)

lemma choices_at_2_2_1:
  "current_choices choices_tree ''2_2_1'' =
     [''Punch even more npc?'', ''Investigate the sound that irritating you?'']"
  by (simp add: current_choices_def choices_tree_def content_node_def)

lemma node_1: "\<exists>t cs. choices_tree ''1'' = Some (content_node t cs)"
  by (simp add: choices_tree_def) (intro exI, rule refl)

lemma node_2: "\<exists>t cs. choices_tree ''2'' = Some (content_node t cs)"
  by (simp add: choices_tree_def) (intro exI, rule refl)

lemma node_1_1: "\<exists>t cs. choices_tree ''1_1'' = Some (content_node t cs)"
  by (simp add: choices_tree_def) (intro exI, rule refl)

lemma node_1_1_3: "\<exists>t cs. choices_tree ''1_1_3'' = Some (content_node t cs)"
  by (simp add: choices_tree_def) (intro exI, rule refl)

lemma node_1_2_1: "choices_tree ''1_2_1'' = Some (redirect_node ''1_1'')"
  by (simp add: choices_tree_def)

lemma node_2_2_1_1: "choices_tree ''2_2_1_1'' = None"
  by (simp add: choices_tree_def)

lemma handle_choice_plain:
  assumes "0 \<le> i" and "i < int (length (current_choices tree (current_node_key g)))"
    and "tree (next_key (current_node_key g) i) = Some nd" and "node_redirect nd = None"
  shows "\<exists>g'. handle_choice tree now i g = Inr g'
           \<and> current_node_key g' = next_key (current_node_key g) i"
  using assms by (simp add: handle_choice_def)

text \<open>
  C2. When the choice index is in range and the derived key is not a key of the story,
  the handler raises nothing: the game is in the ending state, the typewriter holds
  exactly the fallback message with nothing revealed yet, and the current node key is
  the one before.
\<close>

theorem unwritten_path_fallback:
  assumes "0 \<le> i" and "i < int (length (current_choices tree (current_node_key g)))"
    and "tree (next_key (current_node_key g) i) = None"
  shows "\<exists>g'. handle_choice tree now i g = Inr g'
           \<and> game_state g' = Ending
           \<and> full_text (typewriter g') = ''This path has not been written yet. The story ends here.''
           \<and> current_index (typewriter g') = 0
           \<and> current_node_key g' = current_node_key g"
  using assms by (simp add: handle_choice_def set_text_def)

theorem unwritten_path_fallback_witness:
  "\<exists>g'. handle_choice choices_tree 1000 0 (at_node ''2_2_1'') = Inr g'
           \<and> game_state g' = Ending
           \<and> full_text (typewriter g') = ''This path has not been written yet. The story ends here.''
           \<and> current_index (typewriter g') = 0
           \<and> current_node_key g' = ''2_2_1''"
  using unwritten_path_fallback [of 0 choices_tree "at_node ''2_2_1''" 1000]
  by (simp add: at_node_def choices_at_2_2_1 next_key_def py_str_1 node_2_2_1_1)

text \<open>
  C4. A choice index outside \<open>0 \<le> index < len(choices)\<close> leaves the whole game state
  (node key, game state, typewriter) as it was and raises nothing. So does, while a
  choice is awaited, every key that is neither a quit key nor the digit of an offered
  choice, and a digit key pressed while no choice is awaited.
\<close>

theorem out_of_range_noop:
  "(\<not> (0 \<le> i \<and> i < int (length (current_choices tree (current_node_key g))))
      \<longrightarrow> handle_choice tree now i g = Inr g)
   \<and> (game_state g = Choice \<and> key \<noteq> K_ESCAPE \<and> key \<noteq> K_F1
       \<and> \<not> (K_1 \<le> key \<and> key \<le> K_9
              \<and> key - K_1 < int (length (current_choices tree (current_node_key g))))
      \<longrightarrow> keydown tree now key g = Inr g)
   \<and> (game_state g \<noteq> Choice \<and> K_1 \<le> key \<and> key \<le> K_9 \<longrightarrow> keydown tree now key g = Inr g)"
  by (auto simp: handle_choice_def keydown_def Let_def K_1_def K_9_def K_ESCAPE_def K_F1_def K_F4_def K_SPACE_def)


theorem out_of_range_noop_witness:
  "handle_choice choices_tree 1000 2 (at_node ''2_2_1'') = Inr (at_node ''2_2_1'')
   \<and> keydown choices_tree 1000 (K_1 + 2) (at_node ''2_2_1'') = Inr (at_node ''2_2_1'')
   \<and> keydown choices_tree 1000 K_1 ((at_node ''start'')\<lparr>game_state := Narrative\<rparr>)
       = Inr ((at_node ''start'')\<lparr>game_state := Narrative\<rparr>)"
  using out_of_range_noop [of 2 choices_tree "at_node ''2_2_1''" 1000 "K_1 + 2"]
    out_of_range_noop [of 0 choices_tree "(at_node ''start'')\<lparr>game_state := Narrative\<rparr>" 1000 K_1]
  by (simp add: at_node_def choices_at_2_2_1 K_1_def K_9_def K_ESCAPE_def K_F1_def)

text \<open>
  C1. From \<open>start\<close>, index \<open>i\<close> derives \<open>str(i+1)\<close>; from any other key \<open>K\<close> it
  derives \<open>K_str(i+1)\<close>. An in-range choice whose derived key names a node without a
  redirect makes that key the current one. In the game's story, the first choice at
  \<open>start\<close> leads to node \<open>1\<close> and the second to node \<open>2\<close>.
\<close>

theorem next_key_derivation:
  "next_key ''start'' i = py_str (i + 1)
   \<and> (K \<noteq> ''start'' \<longrightarrow> next_key K i = K @ ''_'' @ py_str (i + 1))
   \<and> (0 \<le> i \<and> i < int (length (current_choices tree (current_node_key g)))
       \<and> tree (next_key (current_node_key g) i) = Some nd \<and> node_redirect nd = None
      \<longrightarrow> (\<exists>g'. handle_choice tree now i g = Inr g'
                 \<and> current_node_key g' = next_key (current_node_key g) i))
   \<and> (\<exists>g'. handle_choice choices_tree now 0 (at_node ''start'') = Inr g'
            \<and> current_node_key g' = ''1'')
   \<and> (\<exists>g'. handle_choice choices_tree now 1 (at_node ''start'') = Inr g'
            \<and> current_node_key g' = ''2'')"
proof -
  have root: "next_key ''start'' i = py_str (i + 1)"
    by (simp add: next_key_def)
  have inner: "K \<noteq> ''start'' \<longrightarrow> next_key K i = K @ ''_'' @ py_str (i + 1)"
    by (simp add: next_key_def)
  have step: "0 \<le> i \<and> i < int (length (current_choices tree (current_node_key g)))
       \<and> tree (next_key (current_node_key g) i) = Some nd \<and> node_redirect nd = None
      \<longrightarrow> (\<exists>g'. handle_choice tree now i g = Inr g'
                 \<and> current_node_key g' = next_key (current_node_key g) i)"
    using handle_choice_plain [of i tree g nd now] by blast
  obtain t1 c1 where n1: "choices_tree ''1'' = Some (content_node t1 c1)"
    using node_1 by blast
  obtain t2 c2 where n2: "choices_tree ''2'' = Some (content_node t2 c2)"
    using node_2 by blast
  have first: "\<exists>g'. handle_choice choices_tree now 0 (at_node ''start'') = Inr g'
            \<and> current_node_key g' = ''1''"
    using handle_choice_plain [of 0 choices_tree "at_node ''start''" "content_node t1 c1" now] n1
    by (simp add: at_node_def choices_at_start next_key_def py_str_1 content_node_def)
  have second: "\<exists>g'. handle_choice choices_tree now 1 (at_node ''start'') = Inr g'
            \<and> current_node_key g' = ''2''"
    using handle_choice_plain [of 1 choices_tree "at_node ''start''" "content_node t2 c2" now] n2
    by (simp add: at_node_def choices_at_start next_key_def py_str_2 content_node_def)
  from root inner step first second show ?thesis
    by blast
qed

theorem next_key_derivation_witness:
  "next_key ''1_1'' 2 = ''1_1_3''
   \<and> (\<exists>g'. handle_choice choices_tree 1000 2 (at_node ''1_1'') = Inr g'
            \<and> current_node_key g' = ''1_1_3'')"
proof -
  obtain t cs where n: "choices_tree ''1_1_3'' = Some (content_node t cs)"
    using node_1_1_3 by blast
  show ?thesis
    using next_key_derivation [of 2 "''1_1''" choices_tree "at_node ''1_1''"
        "content_node t cs" 1000] n
    by (simp add: at_node_def choices_at_1_1 next_key_def py_str_3 content_node_def)
qed

text \<open>
  C3, as the claim states it, fails. In \<open>redirect_chains\<close> the first choice at
  \<open>start\<close> derives \<open>1\<close>, a redirect to \<open>a\<close>, itself a redirect to \<open>b\<close>: the
  handler stops at \<open>a\<close>, shows the default text and ends the story, where resolving
  to the first node that is not a redirect gives the content of \<open>b\<close>. The second
  choice derives \<open>2\<close>, a redirect to itself: the handler reports no error and ends the
  story at \<open>2\<close>.
\<close>

theorem redirect_resolution_counterexample:
  "handle_choice redirect_chains 0 0 (at_node ''start'') =
     Inr ((at_node ''start'')
           \<lparr>current_node_key := ''a'',
            typewriter := set_text ''The story ends here.'' 0 ten_letters,
            game_state := Ending\<rparr>)
   \<and> spec_resolve redirect_chains 3 ''1'' = Some (content_node ''B'' [''x''])
   \<and> handle_choice redirect_chains 0 1 (at_node ''start'') =
     Inr ((at_node ''start'')
           \<lparr>current_node_key := ''2'',
            typewriter := set_text ''The story ends here.'' 0 ten_letters,
            game_state := Ending\<rparr>)"
  by (simp add: handle_choice_def at_node_def current_choices_def next_key_def py_str_1 py_str_2
      redirect_chains_def content_node_def redirect_node_def numeral_3_eq_3)

text \<open>
  C3, amended. When the derived key names a redirect whose target is a key of the
  story, the redirect is followed once: the target becomes the current key, the
  typewriter restarts on the target's text and the offered choices are the target's, so
  a target with content is shown exactly. Nothing is resolved further: a target without
  text (another redirect) shows the default text, and without choices it ends the story.
\<close>

theorem redirect_followed_once:
  assumes "0 \<le> i" and "i < int (length (current_choices tree (current_node_key g)))"
    and "tree (next_key (current_node_key g) i) = Some nd"
    and "node_redirect nd = Some r"
    and "tree r = Some tgt"
  shows "\<exists>g'. handle_choice tree now i g = Inr g'
           \<and> current_node_key g' = r
           \<and> full_text (typewriter g') =
               (case node_text tgt of Some t \<Rightarrow> t | None \<Rightarrow> ''The story ends here.'')
           \<and> current_index (typewriter g') = 0
           \<and> current_choices tree (current_node_key g') =
               (case node_choices tgt of Some cs \<Rightarrow> cs | None \<Rightarrow> [])
           \<and> game_state g' =
               (if current_choices tree r = [] then Ending else Narrative)"
  using assms
  by (auto simp: handle_choice_def set_text_def current_choices_def
      split: option.splits list.splits)

theorem redirect_followed_once_witness:
  "\<exists>g'. handle_choice choices_tree 1000 0 (at_node ''1_2'') = Inr g'
           \<and> current_node_key g' = ''1_1''
           \<and> Some (full_text (typewriter g')) = node_text (the (choices_tree ''1_1''))
           \<and> current_index (typewriter g') = 0
           \<and> current_choices choices_tree (current_node_key g') =
               [''Wear coat'', ''Wear coat and take metal hanger as weapon'', ''Just enter'']
           \<and> game_state g' = Narrative"
proof -
  obtain t cs where n: "choices_tree ''1_1'' = Some (content_node t cs)"
    using node_1_1 by blast
  then have cs: "cs = [''Wear coat'', ''Wear coat and take metal hanger as weapon'', ''Just enter'']"
    using choices_at_1_1 by (simp add: current_choices_def content_node_def)
  show ?thesis
    using redirect_followed_once [of 0 choices_tree "at_node ''1_2''"
        "redirect_node ''1_1''" "''1_1''" "content_node t cs" 1000] n cs
    by (simp add: at_node_def choices_at_1_2 choices_at_1_1 next_key_def py_str_1 node_1_2_1
        content_node_def redirect_node_def)
qed

section \<open>Word wrap\<close>

subsection \<open>py_split\<close>

lemma py_split_nonempty: "py_split sep s \<noteq> []"
  by (induction s) (auto split: list.splits)

lemma py_split_no_sep: "w \<in> set (py_split sep s) \<Longrightarrow> sep \<notin> set w"
  by (induction s arbitrary: w) (auto split: if_splits list.splits)

lemma py_split_chars: "w \<in> set (py_split sep s) \<Longrightarrow> set w \<subseteq> set s"
proof (induction s arbitrary: w)
  case Nil
  then show ?case by simp
next
  case (Cons c cs)
  show ?case
  proof (cases "c = sep")
    case True
    with Cons.prems have "w = [] \<or> w \<in> set (py_split sep cs)"
      by simp
    with Cons.IH show ?thesis
      by auto
  next
    case False
    obtain v vs where r: "py_split sep cs = v # vs"
      using py_split_nonempty [of sep cs] by (cases "py_split sep cs") auto
    with False Cons.prems have w: "w = c # v \<or> w \<in> set vs"
      by simp
    have v: "set v \<subseteq> set cs"
      using Cons.IH [of v] r by simp
    have vs: "w \<in> set vs \<Longrightarrow> set w \<subseteq> set cs"
      using Cons.IH [of w] r by simp
    from w v vs show ?thesis
      by auto
  qed
qed

lemma py_split_single: "sep \<notin> set w \<Longrightarrow> py_split sep w = [w]"
  by (induction w) auto

lemma py_split_append:
  "py_split sep (a @ sep # b) = py_split sep a @ py_split sep b"
proof (induction a)
  case Nil
  show ?case by simp
next
  case (Cons x a)
  obtain v vs where r: "py_split sep a = v # vs"
    using py_split_nonempty [of sep a] by (cases "py_split sep a") auto
  with Cons show ?case
    by simp
qed

subsection \<open>py_strip\<close>

lemma py_isspace_space: "py_isspace CHR '' ''"
  by (simp add: py_isspace_def)

lemma py_strip_Nil: "py_strip [] = []"
  by (simp add: py_strip_def)

lemma dropWhile_all: "(dropWhile P xs = []) = (\<forall>x\<in>set xs. P x)"
  by (induction xs) auto

lemma py_strip_blank: "(py_strip s = []) = (\<forall>c\<in>set s. py_isspace c)"
proof
  assume "py_strip s = []"
  then have "dropWhile py_isspace (rev (dropWhile py_isspace s)) = []"
    by (simp add: py_strip_def)
  then have a: "\<forall>c\<in>set (dropWhile py_isspace s). py_isspace c"
    by (simp only: dropWhile_all set_rev)
  have "dropWhile py_isspace s = []"
  proof (rule ccontr)
    assume n: "dropWhile py_isspace s \<noteq> []"
    then have "\<not> py_isspace (hd (dropWhile py_isspace s))"
      by (rule hd_dropWhile)
    moreover have "hd (dropWhile py_isspace s) \<in> set (dropWhile py_isspace s)"
      using n by (rule hd_in_set)
    ultimately show False
      using a by blast
  qed
  then show "\<forall>c\<in>set s. py_isspace c"
    by (simp only: dropWhile_all)
next
  assume a: "\<forall>c\<in>set s. py_isspace c"
  then have dw: "dropWhile py_isspace s = []"
    by (simp only: dropWhile_all)
  show "py_strip s = []"
    unfolding py_strip_def dw by simp
qed

lemma py_strip_fixed:
  assumes "s \<noteq> []" and "\<not> py_isspace (hd s)" and "\<not> py_isspace (last s)"
  shows "py_strip s = s"
proof -
  from assms have "dropWhile py_isspace s = s"
    by (cases s) auto
  moreover from assms have "dropWhile py_isspace (rev s) = rev s"
    by (cases "rev s") (auto simp: hd_rev)
  ultimately show ?thesis
    by (simp add: py_strip_def)
qed

lemma py_strip_fixed_ends:
  assumes "py_strip s = s" and "s \<noteq> []"
  shows "\<not> py_isspace (hd s) \<and> \<not> py_isspace (last s)"
proof -
  define d where "d = dropWhile py_isspace s"
  define e where "e = dropWhile py_isspace (rev d)"
  from assms have e: "rev e = s"
    by (simp add: py_strip_def d_def e_def)
  with assms have ne: "e \<noteq> []"
    by auto
  then have "\<not> py_isspace (hd e)"
    unfolding e_def by (rule hd_dropWhile)
  moreover have "hd e = last s"
    using e ne by (metis hd_rev rev_rev_ident)
  ultimately have l: "\<not> py_isspace (last s)"
    by simp
  have "length s = length e"
    using e by (metis length_rev)
  also have "\<dots> \<le> length (rev d)"
    unfolding e_def by (rule length_dropWhile_le)
  finally have le: "length s \<le> length d"
    by simp
  have "length (takeWhile py_isspace s) + length d = length s"
    unfolding d_def by (metis length_append takeWhile_dropWhile_id)
  with le have "length (takeWhile py_isspace s) = 0"
    by linarith
  then have "takeWhile py_isspace s = []"
    by (simp only: length_0_conv)
  with assms have "\<not> py_isspace (hd s)"
    by (cases s) (auto split: if_splits)
  with l show ?thesis by simp
qed

lemma py_strip_leading_space: "py_strip (CHR '' '' # w) = py_strip w"
  by (simp add: py_strip_def py_isspace_space)

lemma py_strip_trailing_space:
  assumes "py_strip c = c" and "c \<noteq> []"
  shows "py_strip (c @ '' '') = c"
proof -
  from assms have ends: "\<not> py_isspace (hd c) \<and> \<not> py_isspace (last c)"
    by (rule py_strip_fixed_ends)
  with assms(2) have front: "dropWhile py_isspace (c @ '' '') = c @ '' ''"
    by (cases c) auto
  from ends assms(2) have rear: "dropWhile py_isspace (rev c) = rev c"
    by (cases "rev c") (auto simp: hd_rev)
  show ?thesis
    unfolding py_strip_def front by (simp add: py_isspace_space rear)
qed

lemma test_line_eq:
  assumes "py_strip c = c" and "py_strip w = w"
  shows "py_strip (c @ '' '' @ w) =
           (if c = [] then w else if w = [] then c else c @ '' '' @ w)"
proof (cases "c = []")
  case True
  with assms show ?thesis
    by (simp add: py_strip_leading_space)
next
  case c: False
  show ?thesis
  proof (cases "w = []")
    case True
    with c assms show ?thesis
      by (simp add: py_strip_trailing_space)
  next
    case w: False
    from assms(1) c have "\<not> py_isspace (hd c)"
      using py_strip_fixed_ends by blast
    moreover from assms(2) w have "\<not> py_isspace (last w)"
      using py_strip_fixed_ends by blast
    ultimately have "py_strip (c @ '' '' @ w) = c @ '' '' @ w"
      using c w by (intro py_strip_fixed) simp_all
    with c w show ?thesis
      by simp
  qed
qed

subsection \<open>The loops append to the lines they are given\<close>

lemma wrap_words_acc:
  "wrap_words tw acc c ws =
     (acc @ fst (wrap_words tw [] c ws), snd (wrap_words tw [] c ws))"
proof (induction ws arbitrary: acc c)
  case Nil
  show ?case by simp
next
  case (Cons w ws)
  show ?case
  proof (cases "font tw (py_strip (c @ '' '' @ w)) \<le> max_width tw")
    case True
    then show ?thesis
      using Cons.IH [of acc "py_strip (c @ '' '' @ w)"] by (simp add: Let_def)
  next
    case False
    then show ?thesis
      using Cons.IH [of "acc @ [c]" w] Cons.IH [of "[c]" w] by (simp add: Let_def)
  qed
qed

lemma wrap_paragraph_acc: "wrap_paragraph tw acc p = acc @ wrap_paragraph tw [] p"
  unfolding wrap_paragraph_def
  by (subst wrap_words_acc) (simp add: split_def)

lemma wrap_paragraphs_concat:
  "wrap_paragraphs tw acc ps = acc @ concat (map (wrap_paragraph tw []) ps)"
proof (induction ps arbitrary: acc)
  case Nil
  show ?case by simp
next
  case (Cons p ps)
  have "wrap_paragraphs tw acc (p # ps) = wrap_paragraphs tw (wrap_paragraph tw acc p) ps"
    by simp
  also have "\<dots> = wrap_paragraph tw acc p @ concat (map (wrap_paragraph tw []) ps)"
    by (rule Cons.IH)
  also have "wrap_paragraph tw acc p = acc @ wrap_paragraph tw [] p"
    by (rule wrap_paragraph_acc)
  finally show ?case by simp
qed

lemma wrap_text_concat:
  "wrap_text tw txt = concat (map (wrap_paragraph tw []) (py_split CHR 0x0A txt))"
  by (simp add: wrap_text_def wrap_paragraphs_concat)

lemma wrap_paragraph_blank:
  "\<forall>c\<in>set p. py_isspace c \<Longrightarrow> wrap_paragraph tw acc p = acc @ [[]]"
  by (simp add: wrap_paragraph_def py_strip_blank)

subsection \<open>What a line can be\<close>

lemma wrap_words_inv:
  assumes "\<forall>l\<in>set acc. P l" and "P c" and "\<forall>w\<in>set ws. P w"
    and "\<And>c w. P c \<Longrightarrow> P w \<Longrightarrow> font tw (py_strip (c @ '' '' @ w)) \<le> max_width tw
           \<Longrightarrow> P (py_strip (c @ '' '' @ w))"
  shows "(\<forall>l\<in>set (fst (wrap_words tw acc c ws)). P l) \<and> P (snd (wrap_words tw acc c ws))"
  using assms(1-3)
proof (induction ws arbitrary: acc c)
  case Nil
  then show ?case by simp
next
  case (Cons w ws)
  from Cons.prems have pw: "P w" and pws: "\<forall>v\<in>set ws. P v"
    by simp_all
  define t where "t = py_strip (c @ '' '' @ w)"
  show ?case
  proof (cases "font tw t \<le> max_width tw")
    case True
    then have eq: "wrap_words tw acc c (w # ws) = wrap_words tw acc t ws"
      by (simp add: t_def Let_def)
    have "P t"
      unfolding t_def using Cons.prems(2) pw True [unfolded t_def] by (rule assms(4))
    with Cons.prems(1) have
      "(\<forall>l\<in>set (fst (wrap_words tw acc t ws)). P l) \<and> P (snd (wrap_words tw acc t ws))"
      using pws by (rule Cons.IH)
    then show ?thesis
      unfolding eq .
  next
    case False
    then have eq: "wrap_words tw acc c (w # ws) = wrap_words tw (acc @ [c]) w ws"
      by (simp add: t_def Let_def)
    from Cons.prems(1,2) have "\<forall>l\<in>set (acc @ [c]). P l"
      by simp
    then have
      "(\<forall>l\<in>set (fst (wrap_words tw (acc @ [c]) w ws)). P l)
         \<and> P (snd (wrap_words tw (acc @ [c]) w ws))"
      using pw pws by (rule Cons.IH)
    then show ?thesis
      unfolding eq .
  qed
qed

lemma wrap_paragraph_inv:
  assumes "P []" and "\<forall>w\<in>set (py_split CHR '' '' p). P w"
    and "\<And>c w. P c \<Longrightarrow> P w \<Longrightarrow> font tw (py_strip (c @ '' '' @ w)) \<le> max_width tw
           \<Longrightarrow> P (py_strip (c @ '' '' @ w))"
  shows "\<forall>l\<in>set (wrap_paragraph tw [] p). P l"
proof (cases "py_strip p = []")
  case True
  with assms(1) show ?thesis
    by (simp add: wrap_paragraph_def)
next
  case False
  have "(\<forall>l\<in>set (fst (wrap_words tw [] [] (py_split CHR '' '' p))). P l)
          \<and> P (snd (wrap_words tw [] [] (py_split CHR '' '' p)))"
    using assms by (intro wrap_words_inv) simp_all
  with False show ?thesis
    by (simp add: wrap_paragraph_def split_def)
qed

lemma py_strip_subset: "set (py_strip s) \<subseteq> set s"
proof -
  have "set (py_strip s) \<subseteq> set (dropWhile py_isspace s)"
    unfolding py_strip_def using set_dropWhileD [of _ py_isspace "rev (dropWhile py_isspace s)"]
    by auto
  also have "\<dots> \<subseteq> set s"
    using set_dropWhileD [of _ py_isspace s] by auto
  finally show ?thesis .
qed

lemma wrap_text_line:
  assumes "l \<in> set (wrap_text tw txt)"
  obtains p where "p \<in> set (py_split CHR 0x0A txt)" and "l \<in> set (wrap_paragraph tw [] p)"
  using assms by (auto simp: wrap_text_concat)

lemma wrap_paragraph_fits:
  assumes "l \<in> set (wrap_paragraph tw [] p)"
  shows "font tw l \<le> max_width tw \<or> l = [] \<or> l \<in> set (py_split CHR '' '' p)"
proof -
  have "\<forall>l\<in>set (wrap_paragraph tw [] p).
          font tw l \<le> max_width tw \<or> l = [] \<or> l \<in> set (py_split CHR '' '' p)"
    by (rule wrap_paragraph_inv) simp_all
  with assms show ?thesis by blast
qed

lemma wrap_paragraph_no_newline:
  assumes "l \<in> set (wrap_paragraph tw [] p)" and "CHR 0x0A \<notin> set p"
  shows "CHR 0x0A \<notin> set l"
proof -
  have "\<forall>l\<in>set (wrap_paragraph tw [] p). CHR 0x0A \<notin> set l"
  proof (rule wrap_paragraph_inv)
    show "CHR 0x0A \<notin> set []" by simp
    show "\<forall>w\<in>set (py_split CHR '' '' p). CHR 0x0A \<notin> set w"
      using py_split_chars assms(2) by blast
    show "CHR 0x0A \<notin> set (py_strip (c @ '' '' @ w))"
      if "CHR 0x0A \<notin> set c" and "CHR 0x0A \<notin> set w" for c w
    proof -
      have "CHR 0x0A \<notin> set (c @ '' '' @ w)"
        using that by simp
      then show ?thesis
        using py_strip_subset by blast
    qed
  qed
  with assms(1) show ?thesis by blast
qed

subsection \<open>The words of the lines\<close>

lemma words_of_Nil: "words_of [] = []"
  by (simp add: words_of_def)

lemma words_of_word: "CHR '' '' \<notin> set w \<Longrightarrow> words_of w = (if w = [] then [] else [w])"
  by (simp add: words_of_def py_split_single)

lemma words_of_append: "words_of (c @ '' '' @ w) = words_of c @ words_of w"
  by (simp add: words_of_def py_split_append)

lemma words_of_test_line:
  assumes "py_strip c = c" and "py_strip w = w"
  shows "words_of (py_strip (c @ '' '' @ w)) = words_of c @ words_of w"
    and "py_strip (py_strip (c @ '' '' @ w)) = py_strip (c @ '' '' @ w)"
proof -
  have t: "py_strip (c @ '' '' @ w) =
             (if c = [] then w else if w = [] then c else c @ '' '' @ w)"
    using assms by (rule test_line_eq)
  show "words_of (py_strip (c @ '' '' @ w)) = words_of c @ words_of w"
  proof (cases "c = []")
    case True
    with t show ?thesis by (simp add: words_of_Nil)
  next
    case c: False
    show ?thesis
    proof (cases "w = []")
      case True
      with c t show ?thesis by (simp add: words_of_Nil)
    next
      case False
      with c t have "py_strip (c @ '' '' @ w) = c @ '' '' @ w"
        by simp
      then show ?thesis
        by (simp only: words_of_append)
    qed
  qed
  show "py_strip (py_strip (c @ '' '' @ w)) = py_strip (c @ '' '' @ w)"
  proof (cases "c = [] \<or> w = []")
    case True
    with t assms show ?thesis by auto
  next
    case False
    with t have e: "py_strip (c @ '' '' @ w) = c @ '' '' @ w"
      by simp
    show ?thesis
      by (simp only: e)
  qed
qed

lemma wrap_words_words:
  assumes "py_strip c = c" and "\<forall>w\<in>set ws. py_strip w = w \<and> CHR '' '' \<notin> set w"
  shows "concat (map words_of (fst (wrap_words tw acc c ws)))
           @ words_of (snd (wrap_words tw acc c ws))
         = concat (map words_of acc) @ words_of c @ filter (\<lambda>w. w \<noteq> []) ws"
  using assms
proof (induction ws arbitrary: acc c)
  case Nil
  then show ?case by simp
next
  case (Cons w ws)
  from Cons.prems have w: "py_strip w = w" and sp: "CHR '' '' \<notin> set w"
    and ws: "\<forall>v\<in>set ws. py_strip v = v \<and> CHR '' '' \<notin> set v"
    by simp_all
  define t where "t = py_strip (c @ '' '' @ w)"
  have tw: "words_of t = words_of c @ words_of w" and tf: "py_strip t = t"
    unfolding t_def using Cons.prems(1) w by (rule words_of_test_line)+
  have ww: "words_of w @ filter (\<lambda>w. w \<noteq> []) ws = filter (\<lambda>w. w \<noteq> []) (w # ws)"
    using sp by (simp add: words_of_word)
  show ?case
  proof (cases "font tw t \<le> max_width tw")
    case True
    then have eq: "wrap_words tw acc c (w # ws) = wrap_words tw acc t ws"
      by (simp add: t_def Let_def)
    have "concat (map words_of (fst (wrap_words tw acc t ws)))
            @ words_of (snd (wrap_words tw acc t ws))
          = concat (map words_of acc) @ words_of t @ filter (\<lambda>w. w \<noteq> []) ws"
      using tf ws by (rule Cons.IH)
    also have "\<dots> = concat (map words_of acc) @ words_of c
                     @ filter (\<lambda>w. w \<noteq> []) (w # ws)"
      by (simp only: tw ww [symmetric] append_assoc)
    finally show ?thesis
      unfolding eq .
  next
    case False
    then have eq: "wrap_words tw acc c (w # ws) = wrap_words tw (acc @ [c]) w ws"
      by (simp add: t_def Let_def)
    have "concat (map words_of (fst (wrap_words tw (acc @ [c]) w ws)))
            @ words_of (snd (wrap_words tw (acc @ [c]) w ws))
          = concat (map words_of (acc @ [c])) @ words_of w @ filter (\<lambda>w. w \<noteq> []) ws"
      using w ws by (rule Cons.IH)
    also have "\<dots> = concat (map words_of acc) @ words_of c
                     @ filter (\<lambda>w. w \<noteq> []) (w # ws)"
      by (simp only: ww) simp
    finally show ?thesis
      unfolding eq .
  qed
qed

lemma wrap_paragraph_words:
  assumes "\<forall>w\<in>set (py_split CHR '' '' p). py_strip w = w"
  shows "concat (map words_of (wrap_paragraph tw [] p)) = words_of p"
proof (cases "py_strip p = []")
  case True
  then have blank: "\<forall>c\<in>set p. py_isspace c"
    by (simp only: py_strip_blank)
  have "w = []" if "w \<in> set (py_split CHR '' '' p)" for w
  proof -
    from that have "set w \<subseteq> set p"
      by (rule py_split_chars)
    with blank have "\<forall>c\<in>set w. py_isspace c"
      by blast
    then have "py_strip w = []"
      by (simp only: py_strip_blank)
    with assms that show ?thesis
      by simp
  qed
  then have "words_of p = []"
    by (auto simp: words_of_def filter_empty_conv)
  with True show ?thesis
    by (simp add: wrap_paragraph_def words_of_Nil)
next
  case False
  have good: "\<forall>w\<in>set (py_split CHR '' '' p). py_strip w = w \<and> CHR '' '' \<notin> set w"
    using assms py_split_no_sep by blast
  have "concat (map words_of (fst (wrap_words tw [] [] (py_split CHR '' '' p))))
          @ words_of (snd (wrap_words tw [] [] (py_split CHR '' '' p)))
        = concat (map words_of []) @ words_of [] @ filter (\<lambda>w. w \<noteq> []) (py_split CHR '' '' p)"
    using py_strip_Nil good by (rule wrap_words_words)
  with False show ?thesis
    by (simp add: wrap_paragraph_def split_def words_of_Nil words_of_def)
qed

lemma concat_map_of_concat:
  "concat (map f (concat xss)) = concat (map (\<lambda>xs. concat (map f xs)) xss)"
  by (induction xss) simp_all

lemma wrap_text_words:
  assumes "\<forall>c\<in>set txt. py_isspace c \<longrightarrow> c = CHR '' '' \<or> c = CHR 0x0A"
  shows "concat (map words_of (wrap_text tw txt))
         = concat (map words_of (py_split CHR 0x0A txt))"
proof -
  have par: "concat (map words_of (wrap_paragraph tw [] p)) = words_of p"
    if p: "p \<in> set (py_split CHR 0x0A txt)" for p
  proof (rule wrap_paragraph_words, rule ballI)
    fix w
    assume w: "w \<in> set (py_split CHR '' '' p)"
    have "\<not> py_isspace c" if c: "c \<in> set w" for c
    proof
      assume s: "py_isspace c"
      from w have wp: "set w \<subseteq> set p" by (rule py_split_chars)
      from p have pt: "set p \<subseteq> set txt" by (rule py_split_chars)
      from c wp pt s assms have "c = CHR '' '' \<or> c = CHR 0x0A"
        by blast
      moreover from w have "CHR '' '' \<notin> set w" by (rule py_split_no_sep)
      moreover from p have "CHR 0x0A \<notin> set p" by (rule py_split_no_sep)
      ultimately show False
        using c wp by blast
    qed
    then show "py_strip w = w"
      by (cases "w = []") (auto simp: py_strip_Nil intro: py_strip_fixed)
  qed
  have "concat (map words_of (wrap_text tw txt))
        = concat (map (\<lambda>p. concat (map words_of (wrap_paragraph tw [] p)))
            (py_split CHR 0x0A txt))"
    by (simp add: wrap_text_concat concat_map_of_concat comp_def)
  also have "\<dots> = concat (map words_of (py_split CHR 0x0A txt))"
    using par by (simp cong: map_cong)
  finally show ?thesis .
qed

subsection \<open>One more word\<close>

lemma wrap_words_snoc:
  "wrap_words tw acc c (ws @ [w]) =
     (case wrap_words tw acc c ws of
        (wl, cur) \<Rightarrow>
          if font tw (py_strip (cur @ '' '' @ w)) \<le> max_width tw
          then (wl, py_strip (cur @ '' '' @ w))
          else (wl @ [cur], w))"
proof (induction ws arbitrary: acc c)
  case Nil
  show ?case by (simp add: Let_def)
next
  case (Cons v ws)
  show ?case
  proof (cases "font tw (py_strip (c @ '' '' @ v)) \<le> max_width tw")
    case True
    then show ?thesis
      using Cons.IH [of acc "py_strip (c @ '' '' @ v)"] by (simp add: Let_def)
  next
    case False
    then show ?thesis
      using Cons.IH [of "acc @ [c]" v] by (simp add: Let_def)
  qed
qed

lemma py_strip_append_nonblank: "py_strip p \<noteq> [] \<Longrightarrow> py_strip (p @ s) \<noteq> []"
  by (simp only: py_strip_blank) auto

lemma wrap_paragraph_nonempty: "wrap_paragraph tw [] p \<noteq> []"
  by (simp add: wrap_paragraph_def split_def)

lemma wrap_paragraph_snoc:
  assumes "py_strip p \<noteq> []" and "CHR '' '' \<notin> set w"
  shows "wrap_paragraph tw [] (p @ '' '' @ w) =
     (if font tw (py_strip (last (wrap_paragraph tw [] p) @ '' '' @ w)) \<le> max_width tw
      then butlast (wrap_paragraph tw [] p) @ [py_strip (last (wrap_paragraph tw [] p) @ '' '' @ w)]
      else wrap_paragraph tw [] p @ [w])"
proof -
  obtain wl cur where r: "wrap_words tw [] [] (py_split CHR '' '' p) = (wl, cur)"
    by (cases "wrap_words tw [] [] (py_split CHR '' '' p)")
  from assms(1) have wp: "wrap_paragraph tw [] p = wl @ [cur]"
    by (simp add: wrap_paragraph_def r)
  from assms(1) have nb: "py_strip (p @ '' '' @ w) \<noteq> []"
    by (rule py_strip_append_nonblank)
  have sp: "py_split CHR '' '' (p @ '' '' @ w) = py_split CHR '' '' p @ [w]"
    using assms(2) by (simp add: py_split_append py_split_single)
  have "wrap_paragraph tw [] (p @ '' '' @ w) =
          (case wrap_words tw [] [] (py_split CHR '' '' p @ [w]) of (wl, c) \<Rightarrow> wl @ [c])"
    using nb by (simp only: wrap_paragraph_def sp if_False append_Nil)
  also have "\<dots> =
      (if font tw (py_strip (cur @ '' '' @ w)) \<le> max_width tw
       then wl @ [py_strip (cur @ '' '' @ w)] else (wl @ [cur]) @ [w])"
    by (simp add: wrap_words_snoc r)
  finally show ?thesis
    by (simp add: wp)
qed

lemma py_split_tail:
  "sep \<notin> set b \<Longrightarrow>
     py_split sep (a @ b) = butlast (py_split sep a) @ [last (py_split sep a) @ b]"
proof (induction a)
  case Nil
  then show ?case by (simp add: py_split_single)
next
  case (Cons c a)
  obtain v vs where r: "py_split sep a = v # vs"
    using py_split_nonempty [of sep a] by (cases "py_split sep a") auto
  from Cons have ih: "py_split sep (a @ b) = butlast (v # vs) @ [last (v # vs) @ b]"
    by (simp add: r)
  show ?case
  proof (cases "c = sep")
    case True
    with ih r show ?thesis by simp
  next
    case False
    with ih r show ?thesis by (cases vs) simp_all
  qed
qed

lemma wrap_text_newline:
  "wrap_text tw (a @ CHR 0x0A # b) = wrap_text tw a @ wrap_text tw b"
  by (simp add: wrap_text_concat py_split_append)

lemma wrap_text_snoc:
  assumes "py_strip (last (py_split CHR 0x0A t0)) \<noteq> []"
    and "CHR '' '' \<notin> set w" and "CHR 0x0A \<notin> set w"
  shows "wrap_text tw (t0 @ '' '' @ w) =
     (if font tw (py_strip (last (wrap_text tw t0) @ '' '' @ w)) \<le> max_width tw
      then butlast (wrap_text tw t0) @ [py_strip (last (wrap_text tw t0) @ '' '' @ w)]
      else wrap_text tw t0 @ [w])"
proof -
  define ps where "ps = butlast (py_split CHR 0x0A t0)"
  define p where "p = last (py_split CHR 0x0A t0)"
  define X where "X = concat (map (wrap_paragraph tw []) ps)"
  define ls where "ls = wrap_paragraph tw [] p"
  have split0: "py_split CHR 0x0A t0 = ps @ [p]"
    unfolding ps_def p_def using py_split_nonempty [of "CHR 0x0A" t0] by simp
  have "CHR 0x0A \<notin> set ('' '' @ w)"
    using assms(3) by simp
  then have split1: "py_split CHR 0x0A (t0 @ '' '' @ w) = ps @ [p @ '' '' @ w]"
    unfolding ps_def p_def by (rule py_split_tail)
  have ne: "ls \<noteq> []"
    unfolding ls_def by (rule wrap_paragraph_nonempty)
  have w0: "wrap_text tw t0 = X @ ls"
    by (simp add: wrap_text_concat split0 X_def ls_def)
  have w1: "wrap_text tw (t0 @ '' '' @ w) = X @ wrap_paragraph tw [] (p @ '' '' @ w)"
    by (simp only: wrap_text_concat split1) (simp add: X_def)
  have la: "last (X @ ls) = last ls" and bl: "butlast (X @ ls) = X @ butlast ls"
    using ne by (simp_all add: butlast_append)
  have wp: "wrap_paragraph tw [] (p @ '' '' @ w) =
     (if font tw (py_strip (last ls @ '' '' @ w)) \<le> max_width tw
      then butlast ls @ [py_strip (last ls @ '' '' @ w)]
      else ls @ [w])"
    unfolding ls_def using assms(1) [folded p_def] assms(2) by (rule wrap_paragraph_snoc)
  show ?thesis
    unfolding w1 w0 la bl wp by simp
qed

lemma wrap_text_single_word:
  assumes "CHR '' '' \<notin> set w" and "CHR 0x0A \<notin> set w" and "py_strip w \<noteq> []"
    and "font tw (py_strip w) \<le> max_width tw"
  shows "wrap_text tw w = [py_strip w]"
proof -
  have "wrap_words tw [] [] [w] = ([], py_strip w)"
    using assms(4) by (simp add: Let_def py_strip_leading_space)
  with assms(1-3) show ?thesis
    by (simp add: wrap_text_def wrap_paragraph_def py_split_single)
qed

subsection \<open>Width, blank paragraphs and words\<close>

text \<open>
  C8, as the claim states it, fails. With ten pixels per character and a limit of 50,
  the text \<open>abcdef\<close> is wrapped into an empty line and the line \<open>abcdef\<close>, which
  is 60 pixels wide.
\<close>

theorem wrap_width_counterexample:
  "wrap_text narrow50 ''abcdef'' = [[], ''abcdef'']
   \<and> font narrow50 ''abcdef'' = 60
   \<and> max_width narrow50 = 50"
  by code_simp

text \<open>
  C8, amended. Every line of \<open>wrap_text\<close> is at most \<open>max_width\<close> wide, or is
  empty, or is a single space-separated word of one paragraph of the text, which is put
  on a line of its own whatever its width. So every line that holds a space, hence
  every line of two or more words, is within the limit; and no line holds a newline.
  A newline is a forced break: the lines of a text with a newline are the lines of the
  part before it followed by the lines of the part after it. The lines are built
  greedily: a space and one more word put after a text whose last paragraph is not
  blank leave every line but the last as it was, and the last line is replaced by its
  extension with the word when that extension fits, and otherwise is kept, the word
  starting a new line. A text of one word that fits is the one line of that word.
\<close>

theorem wrap_text_width:
  "(\<forall>l\<in>set (wrap_text tw txt).
      font tw l \<le> max_width tw \<or> l = []
      \<or> (\<exists>p\<in>set (py_split CHR 0x0A txt). l \<in> set (py_split CHR '' '' p)))
   \<and> (\<forall>l\<in>set (wrap_text tw txt). CHR '' '' \<in> set l \<longrightarrow> font tw l \<le> max_width tw)
   \<and> (\<forall>l\<in>set (wrap_text tw txt). CHR 0x0A \<notin> set l)
   \<and> wrap_text tw (a @ CHR 0x0A # b) = wrap_text tw a @ wrap_text tw b
   \<and> (py_strip (last (py_split CHR 0x0A t0)) \<noteq> [] \<and> CHR '' '' \<notin> set w \<and> CHR 0x0A \<notin> set w \<longrightarrow>
        wrap_text tw (t0 @ '' '' @ w) =
          (if font tw (py_strip (last (wrap_text tw t0) @ '' '' @ w)) \<le> max_width tw
           then butlast (wrap_text tw t0) @ [py_strip (last (wrap_text tw t0) @ '' '' @ w)]
           else wrap_text tw t0 @ [w]))
   \<and> (CHR '' '' \<notin> set v \<and> CHR 0x0A \<notin> set v \<and> py_strip v \<noteq> []
        \<and> font tw (py_strip v) \<le> max_width tw \<longrightarrow> wrap_text tw v = [py_strip v])"
proof -
  have fits: "font tw l \<le> max_width tw \<or> l = []
      \<or> (\<exists>p\<in>set (py_split CHR 0x0A txt). l \<in> set (py_split CHR '' '' p))"
    if l: "l \<in> set (wrap_text tw txt)" for l
  proof -
    from l obtain p where p: "p \<in> set (py_split CHR 0x0A txt)"
      and lp: "l \<in> set (wrap_paragraph tw [] p)"
      by (rule wrap_text_line)
    from lp have "font tw l \<le> max_width tw \<or> l = [] \<or> l \<in> set (py_split CHR '' '' p)"
      by (rule wrap_paragraph_fits)
    with p show ?thesis
      by blast
  qed
  have spaced: "font tw l \<le> max_width tw"
    if l: "l \<in> set (wrap_text tw txt)" and sp: "CHR '' '' \<in> set l" for l
  proof -
    from l obtain p where lp: "l \<in> set (wrap_paragraph tw [] p)"
      by (rule wrap_text_line)
    then have "font tw l \<le> max_width tw \<or> l = [] \<or> l \<in> set (py_split CHR '' '' p)"
      by (rule wrap_paragraph_fits)
    with sp show ?thesis
      using py_split_no_sep by fastforce
  qed
  have unbroken: "CHR 0x0A \<notin> set l" if l: "l \<in> set (wrap_text tw txt)" for l
  proof -
    from l obtain p where p: "p \<in> set (py_split CHR 0x0A txt)"
      and lp: "l \<in> set (wrap_paragraph tw [] p)"
      by (rule wrap_text_line)
    from p have "CHR 0x0A \<notin> set p"
      by (rule py_split_no_sep)
    with lp show ?thesis
      by (rule wrap_paragraph_no_newline)
  qed
  have forced: "wrap_text tw (a @ CHR 0x0A # b) = wrap_text tw a @ wrap_text tw b"
    by (rule wrap_text_newline)
  have greedy: "wrap_text tw (t0 @ '' '' @ w) =
          (if font tw (py_strip (last (wrap_text tw t0) @ '' '' @ w)) \<le> max_width tw
           then butlast (wrap_text tw t0) @ [py_strip (last (wrap_text tw t0) @ '' '' @ w)]
           else wrap_text tw t0 @ [w])"
    if "py_strip (last (py_split CHR 0x0A t0)) \<noteq> []" and "CHR '' '' \<notin> set w"
      and "CHR 0x0A \<notin> set w"
    using that by (rule wrap_text_snoc)
  have first: "wrap_text tw v = [py_strip v]"
    if "CHR '' '' \<notin> set v" and "CHR 0x0A \<notin> set v" and "py_strip v \<noteq> []"
      and "font tw (py_strip v) \<le> max_width tw"
    using that by (rule wrap_text_single_word)
  from fits spaced unbroken forced greedy first show ?thesis
    by blast
qed

theorem wrap_text_width_witness:
  "wrap_text narrow50 ''ab cd efgh'' = [''ab cd'', ''efgh'']
   \<and> font narrow50 ''ab cd'' \<le> max_width narrow50
   \<and> CHR 0x0A \<notin> set ''ab cd''
   \<and> wrap_text narrow50 (''ab'' @ '' '' @ ''cd'') = butlast (wrap_text narrow50 ''ab'') @ [''ab cd'']
   \<and> wrap_text narrow50 (''ab cd'' @ '' '' @ ''efgh'') = wrap_text narrow50 ''ab cd'' @ [''efgh'']
   \<and> wrap_text narrow50 ''ab'' = [py_strip ''ab'']"
proof -
  have lines: "wrap_text narrow50 ''ab cd efgh'' = [''ab cd'', ''efgh'']"
    by code_simp
  then have mem: "''ab cd'' \<in> set (wrap_text narrow50 ''ab cd efgh'')"
    by simp
  have sp: "CHR '' '' \<in> set ''ab cd''"
    by simp
  from wrap_text_width [of narrow50 "''ab cd efgh''"] mem sp
  have width: "font narrow50 ''ab cd'' \<le> max_width narrow50 \<and> CHR 0x0A \<notin> set ''ab cd''"
    by blast
  have h1: "py_strip (last (py_split CHR 0x0A ''ab'')) \<noteq> []
            \<and> CHR '' '' \<notin> set ''cd'' \<and> CHR 0x0A \<notin> set ''cd''"
    by code_simp
  have t1: "py_strip (last (wrap_text narrow50 ''ab'') @ '' '' @ ''cd'') = ''ab cd''"
    by code_simp
  have c1: "font narrow50 ''ab cd'' \<le> max_width narrow50"
    by code_simp
  from wrap_text_width [of narrow50 "[]" "[]" "[]" "''ab''" "''cd''"] h1
  have "wrap_text narrow50 (''ab'' @ '' '' @ ''cd'') =
          (if font narrow50 (py_strip (last (wrap_text narrow50 ''ab'') @ '' '' @ ''cd''))
                \<le> max_width narrow50
           then butlast (wrap_text narrow50 ''ab'')
                  @ [py_strip (last (wrap_text narrow50 ''ab'') @ '' '' @ ''cd'')]
           else wrap_text narrow50 ''ab'' @ [''cd''])"
    by blast
  then have extend: "wrap_text narrow50 (''ab'' @ '' '' @ ''cd'')
                       = butlast (wrap_text narrow50 ''ab'') @ [''ab cd'']"
    unfolding t1 using c1 by (simp only: if_True)
  have h2: "py_strip (last (py_split CHR 0x0A ''ab cd'')) \<noteq> []
            \<and> CHR '' '' \<notin> set ''efgh'' \<and> CHR 0x0A \<notin> set ''efgh''"
    by code_simp
  have t2: "py_strip (last (wrap_text narrow50 ''ab cd'') @ '' '' @ ''efgh'') = ''ab cd efgh''"
    by code_simp
  have c2: "\<not> font narrow50 ''ab cd efgh'' \<le> max_width narrow50"
    by code_simp
  from wrap_text_width [of narrow50 "[]" "[]" "[]" "''ab cd''" "''efgh''"] h2
  have "wrap_text narrow50 (''ab cd'' @ '' '' @ ''efgh'') =
          (if font narrow50 (py_strip (last (wrap_text narrow50 ''ab cd'') @ '' '' @ ''efgh''))
                \<le> max_width narrow50
           then butlast (wrap_text narrow50 ''ab cd'')
                  @ [py_strip (last (wrap_text narrow50 ''ab cd'') @ '' '' @ ''efgh'')]
           else wrap_text narrow50 ''ab cd'' @ [''efgh''])"
    by blast
  then have closed: "wrap_text narrow50 (''ab cd'' @ '' '' @ ''efgh'')
                      = wrap_text narrow50 ''ab cd'' @ [''efgh'']"
    unfolding t2 using c2 by (simp only: if_False)
  have h3: "CHR '' '' \<notin> set ''ab'' \<and> CHR 0x0A \<notin> set ''ab'' \<and> py_strip ''ab'' \<noteq> []
            \<and> font narrow50 (py_strip ''ab'') \<le> max_width narrow50"
    by code_simp
  from wrap_text_width [of narrow50 "[]" "[]" "[]" "[]" "[]" "''ab''"] h3
  have single: "wrap_text narrow50 ''ab'' = [py_strip ''ab'']"
    by blast
  from lines width extend closed single show ?thesis
    by blast
qed

text \<open>
  C9, as the claim states it, fails: the empty string is wrapped into one line, the
  empty one, and a typewriter built on the empty text draws that one line.
\<close>

theorem wrap_empty_counterexample:
  "wrap_text ten_letters [] = [[]]
   \<and> length (wrap_text ten_letters []) = 1
   \<and> draw_lines (TypewriterText [] (mono_font 10) 760 280 30 0) = [[]]"
  by code_simp

text \<open>
  C9, amended. Wrapping the empty string gives exactly one empty line. The lines of a
  text are the lines of its newline-separated paragraphs in order, and a paragraph of
  whitespace only (the empty paragraph too) adds exactly one empty line.
\<close>

theorem wrap_edge_policy:
  "wrap_text tw [] = [[]]
   \<and> wrap_text tw txt = concat (map (wrap_paragraph tw []) (py_split CHR 0x0A txt))
   \<and> ((\<forall>c\<in>set p. py_isspace c) \<longrightarrow> wrap_paragraph tw acc p = acc @ [[]])"
proof -
  have "wrap_text tw [] = [[]]"
    by (simp add: wrap_text_def wrap_paragraph_def py_strip_Nil)
  moreover have "wrap_text tw txt = concat (map (wrap_paragraph tw []) (py_split CHR 0x0A txt))"
    by (rule wrap_text_concat)
  moreover have "(\<forall>c\<in>set p. py_isspace c) \<longrightarrow> wrap_paragraph tw acc p = acc @ [[]]"
    using wrap_paragraph_blank by blast
  ultimately show ?thesis
    by blast
qed

theorem wrap_edge_policy_witness:
  "wrap_paragraph ten_letters [''x''] [CHR '' '', CHR 0x09] = [''x'', []]
   \<and> wrap_text ten_letters ''a\<newline> \<newline>b c'' = [''a'', [], ''b c'']"
proof -
  have blank: "\<forall>c\<in>set [CHR '' '', CHR 0x09]. py_isspace c"
    by code_simp
  have "wrap_paragraph ten_letters [''x''] [CHR '' '', CHR 0x09] = [''x''] @ [[]]"
    using wrap_edge_policy [of ten_letters "[]" "[CHR '' '', CHR 0x09]" "[''x'']"] blank
    by blast
  moreover have "wrap_text ten_letters ''a\<newline> \<newline>b c'' = [''a'', [], ''b c'']"
    by code_simp
  ultimately show ?thesis
    by simp
qed

text \<open>
  C10, as the claim states it, fails. In \<open>tabbed\<close> the space-separated words are
  \<open>a\<close>, a tab and \<open>b\<close>; the one line wrapped from it is \<open>a b\<close>: the word made
  of the tab is gone, removed by \<open>strip\<close>.
\<close>

theorem wrap_words_counterexample:
  "wrap_text ten_letters tabbed = [''a b'']
   \<and> words_of tabbed = [''a'', [CHR 0x09], ''b'']
   \<and> concat (map words_of (wrap_text ten_letters tabbed)) = [''a'', ''b'']"
  by code_simp

text \<open>
  C10, amended. For a paragraph none of whose space-separated words begins or ends with
  a whitespace character, the lines it adds hold, in order, exactly its non-empty
  words. So for a text whose only whitespace characters are spaces and newlines, the
  words of the wrapped lines are the words of its paragraphs, in order, for every font
  and every width.
\<close>

theorem wrap_preserves_words:
  "((\<forall>w\<in>set (py_split CHR '' '' p). py_strip w = w) \<longrightarrow>
      wrap_paragraph tw acc p = acc @ wrap_paragraph tw [] p
      \<and> concat (map words_of (wrap_paragraph tw [] p)) = words_of p)
   \<and> ((\<forall>c\<in>set txt. py_isspace c \<longrightarrow> c = CHR '' '' \<or> c = CHR 0x0A) \<longrightarrow>
      concat (map words_of (wrap_text tw txt))
        = concat (map words_of (py_split CHR 0x0A txt)))"
  using wrap_paragraph_acc [of tw acc p] wrap_paragraph_words [of p tw]
    wrap_text_words [of "txt" tw]
  by blast

theorem wrap_preserves_words_witness:
  "concat (map words_of (wrap_paragraph narrow50 [] ''the  quick brown''))
     = [''the'', ''quick'', ''brown'']
   \<and> concat (map words_of (wrap_text narrow50 ''ab cd efgh\<newline>ij''))
     = [''ab'', ''cd'', ''efgh'', ''ij'']"
proof -
  have h1: "\<forall>w\<in>set (py_split CHR '' '' ''the  quick brown''). py_strip w = w"
    by code_simp
  have h2: "\<forall>c\<in>set ''ab cd efgh\<newline>ij''. py_isspace c \<longrightarrow> c = CHR '' '' \<or> c = CHR 0x0A"
    by code_simp
  have w1: "words_of ''the  quick brown'' = [''the'', ''quick'', ''brown'']"
    by code_simp
  have w2: "concat (map words_of (py_split CHR 0x0A ''ab cd efgh\<newline>ij''))
              = [''ab'', ''cd'', ''efgh'', ''ij'']"
    by code_simp
  from wrap_preserves_words [of "''the  quick brown''" narrow50 "[]" "''ab cd efgh\<newline>ij''"]
    h1 h2
  have "concat (map words_of (wrap_paragraph narrow50 [] ''the  quick brown''))
          = words_of ''the  quick brown''
        \<and> concat (map words_of (wrap_text narrow50 ''ab cd efgh\<newline>ij''))
          = concat (map words_of (py_split CHR 0x0A ''ab cd efgh\<newline>ij''))"
    by blast
  then show ?thesis
    by (simp only: w1 w2)
qed

end
